theory Spec2Isabelle
  imports Main "HOL-Library.AList" "HOL-Library.Char_ord" "HOL-Library.List_Lexorder"
    "HOL-Library.Word"
begin

section \<open>The prefix tree of trie\_autosuggest.cpp\<close>

text \<open>
  The file \<^verbatim>\<open>src/trie_autosuggest.cpp\<close> holds a class \<^verbatim>\<open>Trie\<close> with the public
  methods \<^verbatim>\<open>insert\<close>, \<^verbatim>\<open>getSuggestions\<close> and \<^verbatim>\<open>getWordCount\<close>. The heap of nodes is a
  strict tree (every node is allocated by \<^verbatim>\<open>insert\<close> and linked from exactly one parent),
  so a node is modelled as a value that contains its children.

  A C++ \<^verbatim>\<open>std::string\<close> is a sequence of bytes: \<^typ>\<open>string\<close>. The order on \<^typ>\<open>char\<close>
  is the order of the byte values and the order on strings is the lexicographic one,
  which is how \<^verbatim>\<open>std::string::operator<\<close> compares.
\<close>

subsection \<open>Nodes and the index\<close>

text \<open>
  \<^verbatim>\<open>struct TrieNode { unordered_map<char, TrieNode *> children; bool isEndOfWord; }\<close>.
  The map is an association list: the order of the list is the order in which a
  range-for loop visits the entries, which the C++ standard leaves open. Lookup
  (\<^verbatim>\<open>find\<close>, \<^verbatim>\<open>operator[]\<close>) is \<^const>\<open>map_of\<close>.
\<close>

datatype TrieNode = TrieNode (children: "(char \<times> TrieNode) list") (isEndOfWord: bool)

text \<open>\<^verbatim>\<open>TrieNode() : isEndOfWord(false) {}\<close>\<close>

definition newTrieNode :: TrieNode where
  "newTrieNode = TrieNode [] False"

text \<open>
  \<^verbatim>\<open>class Trie { TrieNode *root; int wordCount; ... }\<close>. The counter is a 32-bit
  \<^verbatim>\<open>int\<close>: a word of 32 bits, read as a signed number by \<^const>\<open>sint\<close>. Addition on words
  wraps around, so \<^verbatim>\<open>wordCount++\<close> at \<open>2^31 - 1\<close> gives \<open>- 2^31\<close>, which is what the
  compiled program does (the C++ standard leaves signed overflow undefined).
\<close>

record Trie =
  root :: TrieNode
  wordCount :: "32 word"

text \<open>\<^verbatim>\<open>Trie() : wordCount(0) { root = new TrieNode(); }\<close>\<close>

definition newTrie :: Trie where
  "newTrie = \<lparr> root = newTrieNode, wordCount = 0 \<rparr>"

subsection \<open>Characters and normalisation\<close>

text \<open>
  The program never calls \<^verbatim>\<open>setlocale\<close>, so \<^verbatim>\<open>isalpha\<close> and \<^verbatim>\<open>tolower\<close> are those of
  the "C" locale: the letters are the 52 ASCII letters, and every other byte is left
  alone by \<^verbatim>\<open>tolower\<close>. A byte from 0x80 on is taken as the C library treats it in
  that locale: not a letter, and unchanged by \<^verbatim>\<open>tolower\<close>.
\<close>

definition isupper :: "char \<Rightarrow> bool" where
  "isupper ch = (CHR ''A'' \<le> ch \<and> ch \<le> CHR ''Z'')"

definition islower :: "char \<Rightarrow> bool" where
  "islower ch = (CHR ''a'' \<le> ch \<and> ch \<le> CHR ''z'')"

definition isalpha :: "char \<Rightarrow> bool" where
  "isalpha ch = (isupper ch \<or> islower ch)"

definition tolower :: "char \<Rightarrow> char" where
  "tolower ch = (if isupper ch then char_of (of_char ch + (32::nat)) else ch)"

text \<open>\<^verbatim>\<open>transform(result.begin(), result.end(), result.begin(), ::tolower)\<close>\<close>

definition toLower :: "string \<Rightarrow> string" where
  "toLower str = map tolower str"

text \<open>The set of characters \<^verbatim>\<open>" \t\n\r"\<close> that \<^verbatim>\<open>trim\<close> strips.\<close>

definition whitespace :: string where
  "whitespace = [CHR '' '', CHR 0x09, CHR 0x0A, CHR 0x0D]"

text \<open>
  \<^verbatim>\<open>str.find_first_not_of(chars)\<close>: the index of the first character that is not in
  \<open>chars\<close>; \<open>None\<close> stands for \<^verbatim>\<open>string::npos\<close>.
\<close>

fun find_first_not_of :: "string \<Rightarrow> string \<Rightarrow> nat option" where
  "find_first_not_of [] chars = None"
| "find_first_not_of (c # str) chars =
     (if c \<in> set chars then map_option Suc (find_first_not_of str chars) else Some 0)"

text \<open>\<^verbatim>\<open>str.find_last_not_of(chars)\<close>: the same search from the back.\<close>

definition find_last_not_of :: "string \<Rightarrow> string \<Rightarrow> nat option" where
  "find_last_not_of str chars =
     (case find_first_not_of (rev str) chars of
        None \<Rightarrow> None
      | Some i \<Rightarrow> Some (length str - 1 - i))"

text \<open>\<^verbatim>\<open>str.substr(pos, n)\<close> for \<open>pos \<le> length str\<close> (the only way \<^verbatim>\<open>trim\<close> calls it).\<close>

definition substr :: "string \<Rightarrow> nat \<Rightarrow> nat \<Rightarrow> string" where
  "substr str pos n = take n (drop pos str)"

text \<open>
  \<^verbatim>\<open>trim\<close>: returns \<^verbatim>\<open>""\<close> when \<^verbatim>\<open>first == npos\<close>, otherwise
  \<^verbatim>\<open>str.substr(first, last - first + 1)\<close>. When \<open>first\<close> is found, \<open>last\<close> is found
  too (lemma \<open>find_last_not_of_None\<close> below), so the inner \<open>None\<close> branch is never
  taken.
\<close>

definition trim :: "string \<Rightarrow> string" where
  "trim str =
     (case find_first_not_of str whitespace of
        None \<Rightarrow> []
      | Some first \<Rightarrow>
          (case find_last_not_of str whitespace of
             None \<Rightarrow> []
           | Some last' \<Rightarrow> substr str first (last' - first + 1)))"

subsection \<open>The private helpers\<close>

text \<open>
  \<^verbatim>\<open>collectSuggestions(node, currentPrefix, results)\<close>: pushes \<open>currentPrefix\<close> when the
  node ends a word, then visits every child with the key appended.
  \<open>collectChildren\<close> is the range-for loop over \<^verbatim>\<open>node->children\<close>.
\<close>

fun collectSuggestions :: "TrieNode \<Rightarrow> string \<Rightarrow> string list \<Rightarrow> string list"
  and collectChildren :: "(char \<times> TrieNode) list \<Rightarrow> string \<Rightarrow> string list \<Rightarrow> string list"
where
  "collectSuggestions (TrieNode cs e) currentPrefix results =
     collectChildren cs currentPrefix (if e then results @ [currentPrefix] else results)"
| "collectChildren [] currentPrefix results = results"
| "collectChildren ((key, child) # rest) currentPrefix results =
     collectChildren rest currentPrefix
       (collectSuggestions child (currentPrefix @ [key]) results)"

text \<open>
  \<^verbatim>\<open>searchPrefix\<close>, started at \<open>current\<close>: follows one edge for each character;
  \<open>None\<close> is \<^verbatim>\<open>nullptr\<close>.
\<close>

fun searchPrefix :: "TrieNode \<Rightarrow> string \<Rightarrow> TrieNode option" where
  "searchPrefix current [] = Some current"
| "searchPrefix current (ch # prefix) =
     (case map_of (children current) ch of
        None \<Rightarrow> None
      | Some child \<Rightarrow> searchPrefix child prefix)"

subsection \<open>insert\<close>

text \<open>
  The loop of \<^verbatim>\<open>insert\<close> together with the final test, from the node \<open>current\<close> on.
  The C++ walks down and writes through pointers; the model rebuilds the path on the
  way back. The result is the new subtree and whether \<^verbatim>\<open>wordCount++\<close> was run.
  A character that is not a letter is skipped (\<^verbatim>\<open>continue\<close>); for a letter the child is
  created when \<^verbatim>\<open>find\<close> fails, and the walk goes on in the child. A new entry is put at
  the end of the list.
\<close>

fun insertLoop :: "TrieNode \<Rightarrow> string \<Rightarrow> TrieNode \<times> bool" where
  "insertLoop current [] =
     (if \<not> isEndOfWord current
      then (TrieNode (children current) True, True)
      else (current, False))"
| "insertLoop current (ch # cleanWord) =
     (if \<not> isalpha ch then insertLoop current cleanWord
      else
        let child = (case map_of (children current) ch of
                       None \<Rightarrow> newTrieNode
                     | Some c \<Rightarrow> c);
            (child', added) = insertLoop child cleanWord
        in (TrieNode (AList.update ch child' (children current)) (isEndOfWord current),
            added))"

text \<open>
  \<^verbatim>\<open>void insert(const string &word)\<close>, named \<open>insert_word\<close> here because \<open>insert\<close>
  is the insertion into a set in HOL.
\<close>

definition insert_word :: "Trie \<Rightarrow> string \<Rightarrow> Trie" where
  "insert_word t word =
     (let cleanWord = toLower (trim word) in
      if cleanWord = [] then t
      else
        let (root', added) = insertLoop (root t) cleanWord
        in \<lparr> root = root',
             wordCount = (if added then wordCount t + 1 else wordCount t) \<rparr>)"

subsection \<open>getSuggestions and getWordCount\<close>

text \<open>
  \<^verbatim>\<open>vector<string> getSuggestions(const string &prefix) const\<close>. \<^verbatim>\<open>std::sort\<close> on
  strings yields the sorted permutation of its input, which is \<^const>\<open>sort\<close>.
\<close>

definition getSuggestions :: "Trie \<Rightarrow> string \<Rightarrow> string list" where
  "getSuggestions t prefix =
     (let cleanPrefix = toLower (trim prefix);
          prefixNode = (if cleanPrefix = [] then Some (root t)
                        else searchPrefix (root t) cleanPrefix)
      in case prefixNode of
           None \<Rightarrow> []
         | Some node \<Rightarrow> sort (collectSuggestions node cleanPrefix []))"

text \<open>\<^verbatim>\<open>int getWordCount() const { return wordCount; }\<close>: the signed value of the counter.\<close>

definition getWordCount :: "Trie \<Rightarrow> int" where
  "getWordCount t = sint (wordCount t)"

subsection \<open>The three operations as steps of the index\<close>

text \<open>
  The caller drives the index through its three public methods. The two \<^verbatim>\<open>const\<close>
  methods return a value and leave the object as it is.
\<close>

datatype op = Insert string | Suggest string | Count

datatype reply = Done | Words "string list" | Number int

fun step :: "Trie \<Rightarrow> op \<Rightarrow> Trie \<times> reply" where
  "step t (Insert word) = (insert_word t word, Done)"
| "step t (Suggest prefix) = (t, Words (getSuggestions t prefix))"
| "step t Count = (t, Number (getWordCount t))"

text \<open>The state after a sequence of calls.\<close>

fun run :: "Trie \<Rightarrow> op list \<Rightarrow> Trie" where
  "run t [] = t"
| "run t (x # ops) = run (fst (step t x)) ops"

text \<open>The arguments of the \<^verbatim>\<open>insert\<close> calls of a sequence, in order.\<close>

fun insertedWords :: "op list \<Rightarrow> string list" where
  "insertedWords [] = []"
| "insertedWords (Insert word # ops) = word # insertedWords ops"
| "insertedWords (_ # ops) = insertedWords ops"

subsection \<open>Notions used to state the properties\<close>

text \<open>
  The normalised text, \<^verbatim>\<open>toLower(trim(...))\<close>, which \<^verbatim>\<open>insert\<close> calls \<open>cleanWord\<close> and
  \<^verbatim>\<open>getSuggestions\<close> calls \<open>cleanPrefix\<close>.
\<close>

definition clean :: "string \<Rightarrow> string" where
  "clean str = toLower (trim str)"

text \<open>The letters of the normalised text: the characters \<^verbatim>\<open>insert\<close> builds edges for.\<close>

definition letters :: "string \<Rightarrow> string" where
  "letters str = filter isalpha (clean str)"

text \<open>
  The words \<^verbatim>\<open>insert\<close> stores for a list of arguments: a blank argument stores
  nothing, any other one stores its letters.
\<close>

fun storedWords :: "string list \<Rightarrow> string list" where
  "storedWords [] = []"
| "storedWords (word # ws) =
     (if clean word = [] then storedWords ws else letters word # storedWords ws)"

text \<open>A word is in a tree when its path from the node ends in a terminal node.\<close>

definition isin :: "TrieNode \<Rightarrow> string \<Rightarrow> bool" where
  "isin node str = (case searchPrefix node str of None \<Rightarrow> False | Some n \<Rightarrow> isEndOfWord n)"

text \<open>The number of nodes of a tree whose \<^verbatim>\<open>isEndOfWord\<close> flag is set.\<close>

fun countTerminal :: "TrieNode \<Rightarrow> nat"
  and countTerminalChildren :: "(char \<times> TrieNode) list \<Rightarrow> nat"
where
  "countTerminal (TrieNode cs e) = (if e then 1 else 0) + countTerminalChildren cs"
| "countTerminalChildren [] = 0"
| "countTerminalChildren ((key, child) # rest) = countTerminal child + countTerminalChildren rest"

text \<open>
  No two entries of a node's map share a key, at every node: what \<^verbatim>\<open>unordered_map\<close>
  guarantees by itself.
\<close>

fun distinctKeys :: "TrieNode \<Rightarrow> bool"
  and distinctKeysChildren :: "(char \<times> TrieNode) list \<Rightarrow> bool"
where
  "distinctKeys (TrieNode cs e) = distinctKeysChildren cs"
| "distinctKeysChildren [] = True"
| "distinctKeysChildren ((key, child) # rest) =
     (key \<notin> fst ` set rest \<and> distinctKeys child \<and> distinctKeysChildren rest)"

text \<open>Every key of every node is a letter.\<close>

fun letterKeys :: "TrieNode \<Rightarrow> bool"
  and letterKeysChildren :: "(char \<times> TrieNode) list \<Rightarrow> bool"
where
  "letterKeys (TrieNode cs e) = letterKeysChildren cs"
| "letterKeysChildren [] = True"
| "letterKeysChildren ((key, child) # rest) =
     (isalpha key \<and> letterKeys child \<and> letterKeysChildren rest)"

text \<open>
  The calls \<^verbatim>\<open>insert("a")\<close>, \<^verbatim>\<open>insert("aa")\<close>, ... up to the word of \<open>n\<close> letters: \<open>n\<close>
  inserts of \<open>n\<close> different words.
\<close>

fun growingWords :: "nat \<Rightarrow> op list" where
  "growingWords 0 = []"
| "growingWords (Suc n) = growingWords n @ [Insert (replicate (Suc n) (CHR ''a''))]"

subsection \<open>The order of the entries of a map\<close>

text \<open>
  The order in which an \<^verbatim>\<open>unordered_map\<close> enumerates its entries is not fixed by the
  C++ standard, and an insertion may change it. \<open>sameNode node node'\<close> says that two
  trees are the same up to that order: the flags agree, and the two maps have as many
  entries and send every key of the first to trees that are the same in this sense.
\<close>

fun sameNode :: "TrieNode \<Rightarrow> TrieNode \<Rightarrow> bool"
  and sameChildren :: "(char \<times> TrieNode) list \<Rightarrow> (char \<times> TrieNode) list \<Rightarrow> bool"
where
  "sameNode (TrieNode cs e) node' =
     (e = isEndOfWord node' \<and> length cs = length (children node')
      \<and> sameChildren cs (children node'))"
| "sameChildren [] cs' = True"
| "sameChildren ((key, child) # rest) cs' =
     ((case map_of cs' key of None \<Rightarrow> False | Some child' \<Rightarrow> sameNode child child')
      \<and> sameChildren rest cs')"

definition sameTrie :: "Trie \<Rightarrow> Trie \<Rightarrow> bool" where
  "sameTrie t t' = (sameNode (root t) (root t') \<and> wordCount t = wordCount t')"

text \<open>
  \<open>reaches t ops t'\<close>: the calls \<open>ops\<close> may lead from \<open>t\<close> to \<open>t'\<close>, when after each
  call every map of the tree may hold its entries in any order.
\<close>

inductive reaches :: "Trie \<Rightarrow> op list \<Rightarrow> Trie \<Rightarrow> bool" where
  reaches_Nil: "reaches t [] t"
| reaches_Cons: "sameTrie (fst (step t x)) u \<Longrightarrow> reaches u ops t' \<Longrightarrow> reaches t (x # ops) t'"

section \<open>Properties of the helpers\<close>

subsection \<open>Words below a node\<close>

lemma isin_Nil: "isin node [] = isEndOfWord node"
  by (simp add: isin_def)

lemma isin_Cons: "isin node (k # s) = (case map_of (children node) k of None \<Rightarrow> False | Some c \<Rightarrow> isin c s)"
  by (simp add: isin_def split: option.splits)

text \<open>
  The accumulator \<open>results\<close> only grows at its end. The statement is about every
  accumulator at once, so the induction follows the recursion of the two functions on
  the node and the prefix (\<open>d1\<close> and \<open>d2\<close> stand for the third argument of the rule).
\<close>

lemma collect_acc_all:
  fixes d1 d2 :: "string list"
  shows "\<forall>rs. collectSuggestions node p rs = rs @ collectSuggestions node p []"
  and "\<forall>rs. collectChildren cs p rs = rs @ collectChildren cs p []"
proof (induction node p d1 and cs p d2 rule: collectSuggestions_collectChildren.induct)
  case (1 cs e p rs)
  show ?case
  proof
    fix rs
    show "collectSuggestions (TrieNode cs e) p rs = rs @ collectSuggestions (TrieNode cs e) p []"
    using "1.IH"[rule_format, of "rs @ [p]"] "1.IH"[rule_format, of "[p]"] "1.IH"[rule_format, of rs] by simp
  qed
next
  case (2 p rs)
  show ?case by simp
next
  case (3 key child rest p rs)
  show ?case
  proof
    fix rs
    show "collectChildren ((key, child) # rest) p rs = rs @ collectChildren ((key, child) # rest) p []"
    using "3.IH"(1)[rule_format, of rs] "3.IH"(2)[rule_format, of "collectSuggestions child (p @ [key]) rs"]
      "3.IH"(2)[rule_format, of "collectSuggestions child (p @ [key]) []"]
    by simp
  qed
qed

lemmas collect_acc = collect_acc_all(1)[rule_format]
lemmas collectChildren_acc = collect_acc_all(2)[rule_format]

lemma collectSuggestions_unfold:
  "collectSuggestions (TrieNode cs e) p [] = (if e then [p] else []) @ collectChildren cs p []"
  using collectChildren_acc[of cs p "[p]"] by simp

lemma collectChildren_unfold:
  "collectChildren ((key, child) # rest) p [] =
     collectSuggestions child (p @ [key]) [] @ collectChildren rest p []"
  using collectChildren_acc[of rest p "collectSuggestions child (p @ [key]) []"] by simp

lemma isin_TrieNode_Cons:
  "isin (TrieNode cs e) (k # s) = (case map_of cs k of None \<Rightarrow> False | Some c \<Rightarrow> isin c s)"
  by (simp add: isin_Cons)

lemma collect_set_distinct:
  "distinctKeys node \<Longrightarrow>
     \<forall>p. set (collectSuggestions node p []) = {p @ s | s. isin node s}
        \<and> distinct (collectSuggestions node p [])"
  "distinctKeysChildren cs \<Longrightarrow>
     \<forall>p. set (collectChildren cs p []) =
            {p @ k # s | k c s. map_of cs k = Some c \<and> isin c s}
        \<and> distinct (collectChildren cs p [])"
proof (induction node and cs rule: distinctKeys_distinctKeysChildren.induct)
  case (1 cs e)
  then have IH: "\<And>p. set (collectChildren cs p []) =
            {p @ k # s | k c s. map_of cs k = Some c \<and> isin c s}"
     "\<And>p. distinct (collectChildren cs p [])"
    by simp_all
  show ?case
  proof (intro allI conjI)
    fix p
    have "{p @ s | s. isin (TrieNode cs e) s} =
          (if e then {p} else {}) \<union> {p @ k # s | k c s. map_of cs k = Some c \<and> isin c s}"
      (is "?L = ?R")
    proof (intro set_eqI iffI)
      fix x assume "x \<in> ?L"
      then obtain s where s: "x = p @ s" "isin (TrieNode cs e) s" by blast
      show "x \<in> ?R"
      proof (cases s)
        case Nil
        with s show ?thesis by (simp add: isin_Nil)
      next
        case (Cons k s')
        with s show ?thesis by (auto simp: isin_TrieNode_Cons split: option.splits)
      qed
    next
      fix x assume "x \<in> ?R"
      then show "x \<in> ?L"
      proof (cases "e \<and> x = p")
        case True
        then have "isin (TrieNode cs e) []" by (simp add: isin_Nil)
        with True show ?thesis by force
      next
        case False
        with \<open>x \<in> ?R\<close> obtain k c s where "x = p @ k # s" "map_of cs k = Some c" "isin c s"
          by (auto split: if_splits)
        then have "isin (TrieNode cs e) (k # s)" by (simp add: isin_TrieNode_Cons)
        with \<open>x = p @ k # s\<close> show ?thesis by blast
      qed
    qed
    then show "set (collectSuggestions (TrieNode cs e) p []) = {p @ s | s. isin (TrieNode cs e) s}"
      by (simp add: collectSuggestions_unfold IH(1) del: collectSuggestions.simps)
    show "distinct (collectSuggestions (TrieNode cs e) p [])"
      by (auto simp: collectSuggestions_unfold IH simp del: collectSuggestions.simps)
  qed
next
  case 2
  show ?case by simp
next
  case (3 key child rest)
  then have dk: "key \<notin> fst ` set rest" and dc: "distinctKeys child" and dr: "distinctKeysChildren rest"
    by simp_all
  from 3 dc have IHc: "\<And>p. set (collectSuggestions child p []) = {p @ s | s. isin child s}"
    "\<And>p. distinct (collectSuggestions child p [])" by simp_all
  from 3 dr have IHr: "\<And>p. set (collectChildren rest p []) =
            {p @ k # s | k c s. map_of rest k = Some c \<and> isin c s}"
    "\<And>p. distinct (collectChildren rest p [])" by simp_all
  from dk have none: "map_of rest key = None"
    by (simp add: map_of_eq_None_iff)
  show ?case
  proof (intro allI conjI)
    fix p
    have "{p @ k # s | k c s. map_of ((key, child) # rest) k = Some c \<and> isin c s} =
          {(p @ [key]) @ s | s. isin child s} \<union>
          {p @ k # s | k c s. map_of rest k = Some c \<and> isin c s}" (is "?L = ?A \<union> ?B")
    proof (intro set_eqI iffI)
      fix x assume "x \<in> ?L"
      then obtain k c s where x: "x = p @ k # s" "map_of ((key, child) # rest) k = Some c" "isin c s"
        by blast
      show "x \<in> ?A \<union> ?B"
      proof (cases "k = key")
        case True
        with x show ?thesis by simp
      next
        case False
        with x have "x \<in> ?B" by auto
        then show ?thesis by simp
      qed
    next
      fix x assume "x \<in> ?A \<union> ?B"
      then consider (a) "x \<in> ?A" | (b) "x \<in> ?B" by blast
      then show "x \<in> ?L"
      proof cases
        case a
        then obtain s where "x = p @ key # s" "isin child s" by auto
        then show ?thesis by force
      next
        case b
        then obtain k c s where x: "x = p @ k # s" "map_of rest k = Some c" "isin c s" by blast
        with none have "k \<noteq> key" by auto
        with x have "map_of ((key, child) # rest) k = Some c" by simp
        with x show ?thesis by blast
      qed
    qed
    then show "set (collectChildren ((key, child) # rest) p []) =
       {p @ k # s | k c s. map_of ((key, child) # rest) k = Some c \<and> isin c s}"
      by (simp add: collectChildren_unfold IHc IHr del: collectChildren.simps)
    show "distinct (collectChildren ((key, child) # rest) p [])"
      using none by (auto simp: collectChildren_unfold IHc IHr simp del: collectChildren.simps)
  qed
qed

subsection \<open>The insertion loop\<close>

lemma isin_newTrieNode: "isin newTrieNode s = False"
  by (cases s) (simp_all add: newTrieNode_def isin_Nil isin_Cons)

lemma isin_update:
  "isin (TrieNode (AList.update ch c' cs) e) s =
     (case s of [] \<Rightarrow> e
      | k # s' \<Rightarrow> if k = ch then isin c' s' else isin (TrieNode cs e) s)"
  by (cases s) (simp_all add: isin_Nil isin_Cons update_conv')

lemma isin_child:
  "isin (case map_of (children n) ch of None \<Rightarrow> newTrieNode | Some c \<Rightarrow> c) s = isin n (ch # s)"
  by (simp add: isin_Cons isin_newTrieNode split: option.splits)

lemma isin_insertLoop:
  "isin (fst (insertLoop n cs)) s = (s = filter isalpha cs \<or> isin n s)"
proof (induction n cs arbitrary: s rule: insertLoop.induct)
  case (1 current)
  show ?case by (cases s; cases current) (auto simp: isin_Nil isin_Cons)
next
  case (2 current ch cleanWord)
  show ?case
  proof (cases "isalpha ch")
    case False
    with 2 show ?thesis by simp
  next
    case True
    define child where "child = (case map_of (children current) ch of None \<Rightarrow> newTrieNode | Some c \<Rightarrow> c)"
    have IH: "\<And>s. isin (fst (insertLoop child cleanWord)) s = (s = filter isalpha cleanWord \<or> isin child s)"
      using 2(2)[OF _ child_def] True by simp
    have c: "\<And>s. isin child s = isin current (ch # s)"
      unfolding child_def by (rule isin_child)
    have "fst (insertLoop current (ch # cleanWord)) =
            TrieNode (AList.update ch (fst (insertLoop child cleanWord)) (children current)) (isEndOfWord current)"
      using True by (simp add: child_def Let_def split: prod.splits)
    then show ?thesis
      using True by (cases s; cases current) (auto simp: isin_update IH c isin_Nil)
  qed
qed

lemma snd_insertLoop:
  "snd (insertLoop n cs) = (\<not> isin n (filter isalpha cs))"
proof (induction n cs rule: insertLoop.induct)
  case (1 current)
  show ?case by (simp add: isin_Nil)
next
  case (2 current ch cleanWord)
  show ?case
  proof (cases "isalpha ch")
    case False
    with 2 show ?thesis by simp
  next
    case True
    define child where "child = (case map_of (children current) ch of None \<Rightarrow> newTrieNode | Some c \<Rightarrow> c)"
    have IH: "snd (insertLoop child cleanWord) = (\<not> isin child (filter isalpha cleanWord))"
      using 2(2)[OF _ child_def] True by simp
    have c: "\<And>s. isin child s = isin current (ch # s)"
      unfolding child_def by (rule isin_child)
    have "snd (insertLoop current (ch # cleanWord)) = snd (insertLoop child cleanWord)"
      using True by (simp add: child_def Let_def split: prod.splits)
    then show ?thesis
      using True by (simp add: IH c)
  qed
qed


lemma fst_insertLoop_Cons:
  "isalpha ch \<Longrightarrow> fst (insertLoop current (ch # cleanWord)) =
     TrieNode (AList.update ch
        (fst (insertLoop (case map_of (children current) ch of None \<Rightarrow> newTrieNode | Some c \<Rightarrow> c) cleanWord))
        (children current)) (isEndOfWord current)"
  by (simp add: Let_def split: prod.splits)

lemma snd_insertLoop_Cons:
  "isalpha ch \<Longrightarrow> snd (insertLoop current (ch # cleanWord)) =
     snd (insertLoop (case map_of (children current) ch of None \<Rightarrow> newTrieNode | Some c \<Rightarrow> c) cleanWord)"
  by (simp add: Let_def split: prod.splits)

lemma distinctKeysChildren_iff:
  "distinctKeysChildren cs = (distinct (map fst cs) \<and> (\<forall>x\<in>set cs. distinctKeys (snd x)))"
  by (induction cs) (auto simp: rev_image_eqI)

lemma letterKeysChildren_iff:
  "letterKeysChildren cs = (\<forall>x\<in>set cs. isalpha (fst x) \<and> letterKeys (snd x))"
  by (induction cs) auto

lemma set_update_subset: "set (AList.update k v cs) \<subseteq> Set.insert (k, v) (set cs)"
  by (induction cs) auto

lemma distinctKeys_child:
  assumes "distinctKeys current"
  shows "distinctKeys (case map_of (children current) ch of None \<Rightarrow> newTrieNode | Some c \<Rightarrow> c)"
proof (cases "map_of (children current) ch")
  case None
  then show ?thesis by (simp add: newTrieNode_def)
next
  case (Some c)
  then have "(ch, c) \<in> set (children current)" by (rule map_of_SomeD)
  with assms Some show ?thesis
    by (cases current) (auto simp: distinctKeysChildren_iff)
qed

lemma letterKeys_child:
  assumes "letterKeys current"
  shows "letterKeys (case map_of (children current) ch of None \<Rightarrow> newTrieNode | Some c \<Rightarrow> c)"
proof (cases "map_of (children current) ch")
  case None
  then show ?thesis by (simp add: newTrieNode_def)
next
  case (Some c)
  then have "(ch, c) \<in> set (children current)" by (rule map_of_SomeD)
  with assms Some show ?thesis
    by (cases current) (auto simp: letterKeysChildren_iff)
qed

lemma distinctKeys_update:
  assumes "distinctKeys current" "distinctKeys c'"
  shows "distinctKeys (TrieNode (AList.update ch c' (children current)) e)"
  using assms set_update_subset[of ch c' "children current"]
  by (cases current) (auto simp: distinctKeysChildren_iff distinct_update)

lemma letterKeys_update:
  assumes "letterKeys current" "letterKeys c'" "isalpha ch"
  shows "letterKeys (TrieNode (AList.update ch c' (children current)) e)"
  using assms set_update_subset[of ch c' "children current"]
  by (cases current) (auto simp: letterKeysChildren_iff)

lemma distinctKeys_insertLoop:
  "distinctKeys n \<Longrightarrow> distinctKeys (fst (insertLoop n cs))"
proof (induction n cs rule: insertLoop.induct)
  case (1 current)
  then show ?case by (cases current) auto
next
  case (2 current ch cleanWord)
  show ?case
  proof (cases "isalpha ch")
    case False
    with 2 show ?thesis by simp
  next
    case True
    define child where "child = (case map_of (children current) ch of None \<Rightarrow> newTrieNode | Some c \<Rightarrow> c)"
    have "distinctKeys child" unfolding child_def using "2.prems" by (rule distinctKeys_child)
    then have "distinctKeys (fst (insertLoop child cleanWord))"
      using 2(2)[OF _ child_def] True by simp
    then show ?thesis
      using True "2.prems" by (simp only: fst_insertLoop_Cons child_def[symmetric] distinctKeys_update)
  qed
qed

lemma letterKeys_insertLoop:
  "letterKeys n \<Longrightarrow> letterKeys (fst (insertLoop n cs))"
proof (induction n cs rule: insertLoop.induct)
  case (1 current)
  then show ?case by (cases current) auto
next
  case (2 current ch cleanWord)
  show ?case
  proof (cases "isalpha ch")
    case False
    with 2 show ?thesis by simp
  next
    case True
    define child where "child = (case map_of (children current) ch of None \<Rightarrow> newTrieNode | Some c \<Rightarrow> c)"
    have "letterKeys child" unfolding child_def using "2.prems" by (rule letterKeys_child)
    then have "letterKeys (fst (insertLoop child cleanWord))"
      using 2(2)[OF _ child_def] True by simp
    then show ?thesis
      using True "2.prems" by (simp only: fst_insertLoop_Cons child_def[symmetric] letterKeys_update)
  qed
qed

lemma countTerminalChildren_update:
  "countTerminalChildren (AList.update ch c' cs)
     + countTerminal (case map_of cs ch of None \<Rightarrow> newTrieNode | Some c \<Rightarrow> c)
   = countTerminalChildren cs + countTerminal c'"
  by (induction cs) (auto simp: newTrieNode_def)

lemma countTerminal_insertLoop:
  "countTerminal (fst (insertLoop n cs)) =
     countTerminal n + (if snd (insertLoop n cs) then 1 else 0)"
proof (induction n cs rule: insertLoop.induct)
  case (1 current)
  show ?case by (cases current) auto
next
  case (2 current ch cleanWord)
  show ?case
  proof (cases "isalpha ch")
    case False
    with 2 show ?thesis by simp
  next
    case True
    define child where "child = (case map_of (children current) ch of None \<Rightarrow> newTrieNode | Some c \<Rightarrow> c)"
    have IH: "countTerminal (fst (insertLoop child cleanWord)) =
        countTerminal child + (if snd (insertLoop child cleanWord) then 1 else 0)"
      using 2(2)[OF _ child_def] True by simp
    have "countTerminalChildren (AList.update ch (fst (insertLoop child cleanWord)) (children current))
            + countTerminal child
          = countTerminalChildren (children current) + countTerminal (fst (insertLoop child cleanWord))"
      unfolding child_def by (rule countTerminalChildren_update)
    moreover have "fst (insertLoop current (ch # cleanWord)) =
        TrieNode (AList.update ch (fst (insertLoop child cleanWord)) (children current))
          (isEndOfWord current)"
      using True by (simp only: fst_insertLoop_Cons child_def)
    moreover have "snd (insertLoop current (ch # cleanWord)) = snd (insertLoop child cleanWord)"
      using True by (simp only: snd_insertLoop_Cons child_def)
    moreover have "countTerminal current =
        (if isEndOfWord current then 1 else 0) + countTerminalChildren (children current)"
      by (cases current) simp
    ultimately show ?thesis
      using IH by (simp del: insertLoop.simps)
  qed
qed

lemma searchPrefix_append:
  "searchPrefix n (p @ s) = (case searchPrefix n p of None \<Rightarrow> None | Some m \<Rightarrow> searchPrefix m s)"
  by (induction n p rule: searchPrefix.induct) (auto split: option.splits)

lemma isin_append:
  "isin n (p @ s) = (case searchPrefix n p of None \<Rightarrow> False | Some m \<Rightarrow> isin m s)"
  by (simp add: isin_def searchPrefix_append split: option.splits)

lemma distinctKeys_searchPrefix:
  "distinctKeys n \<Longrightarrow> searchPrefix n p = Some m \<Longrightarrow> distinctKeys m"
proof (induction n p rule: searchPrefix.induct)
  case (1 current)
  then show ?case by simp
next
  case (2 current ch prefix)
  then obtain child where c: "map_of (children current) ch = Some child"
    by (auto split: option.splits)
  with distinctKeys_child[OF "2.prems"(1), of ch] have "distinctKeys child" by simp
  with 2 c show ?case by simp
qed

lemma letterKeys_searchPrefix_None:
  "letterKeys n \<Longrightarrow> \<exists>c\<in>set p. \<not> isalpha c \<Longrightarrow> searchPrefix n p = None"
proof (induction n p rule: searchPrefix.induct)
  case (1 current)
  then show ?case by simp
next
  case (2 current ch prefix)
  show ?case
  proof (cases "map_of (children current) ch")
    case None
    then show ?thesis by simp
  next
    case (Some child)
    then have mem: "(ch, child) \<in> set (children current)" by (rule map_of_SomeD)
    with "2.prems"(1) have "isalpha ch" "letterKeys child"
      by (cases current; auto simp: letterKeysChildren_iff)+
    with 2 Some show ?thesis by auto
  qed
qed

subsection \<open>The operations on the index\<close>

lemma root_insert:
  "root (insert_word t w) =
     (if clean w = [] then root t else fst (insertLoop (root t) (clean w)))"
  by (simp add: insert_word_def clean_def Let_def split: prod.splits)

lemma wordCount_insert:
  "wordCount (insert_word t w) =
     (if clean w \<noteq> [] \<and> snd (insertLoop (root t) (clean w))
      then wordCount t + 1 else wordCount t)"
  by (simp add: insert_word_def clean_def Let_def split: prod.splits)

lemma isin_insert:
  "isin (root (insert_word t w)) s = (isin (root t) s \<or> (clean w \<noteq> [] \<and> s = letters w))"
  by (auto simp: root_insert isin_insertLoop letters_def)

lemma wordCount_insert_isin:
  "wordCount (insert_word t w) =
     (if clean w \<noteq> [] \<and> \<not> isin (root t) (letters w)
      then wordCount t + 1 else wordCount t)"
  by (simp add: wordCount_insert snd_insertLoop letters_def)

lemma distinctKeys_insert: "distinctKeys (root t) \<Longrightarrow> distinctKeys (root (insert_word t w))"
  by (simp add: root_insert distinctKeys_insertLoop)

lemma letterKeys_insert: "letterKeys (root t) \<Longrightarrow> letterKeys (root (insert_word t w))"
  by (simp add: root_insert letterKeys_insertLoop)

lemma countTerminal_insert:
  "wordCount t = of_nat (countTerminal (root t)) \<Longrightarrow>
   wordCount (insert_word t w) = of_nat (countTerminal (root (insert_word t w)))"
  by (simp add: root_insert wordCount_insert countTerminal_insertLoop)

lemma fst_step_cases:
  "fst (step t x) = (case x of Insert w \<Rightarrow> insert_word t w | _ \<Rightarrow> t)"
  by (cases x) simp_all

lemma distinctKeys_run: "distinctKeys (root t) \<Longrightarrow> distinctKeys (root (run t ops))"
  by (induction t ops rule: run.induct) (auto simp: fst_step_cases distinctKeys_insert split: op.splits)

lemma letterKeys_run: "letterKeys (root t) \<Longrightarrow> letterKeys (root (run t ops))"
  by (induction t ops rule: run.induct) (auto simp: fst_step_cases letterKeys_insert split: op.splits)

lemma countTerminal_run:
  "wordCount t = of_nat (countTerminal (root t)) \<Longrightarrow>
   wordCount (run t ops) = of_nat (countTerminal (root (run t ops)))"
  by (induction t ops rule: run.induct) (auto simp: fst_step_cases countTerminal_insert split: op.splits)

lemma set_storedWords:
  "set (storedWords ws) = {letters w | w. w \<in> set ws \<and> clean w \<noteq> []}"
  by (induction ws) auto

lemma isin_run:
  "isin (root (run t ops)) s =
     (isin (root t) s \<or> s \<in> set (storedWords (insertedWords ops)))"
proof (induction t ops rule: run.induct)
  case (1 t)
  show ?case by simp
next
  case (2 t x ops)
  show ?case
    using 2 by (cases x) (auto simp: isin_insert)
qed

lemma newTrie_facts:
  "distinctKeys (root newTrie)" "letterKeys (root newTrie)"
  "wordCount newTrie = of_nat (countTerminal (root newTrie))"
  "isin (root newTrie) s = False"
  by (simp_all add: newTrie_def newTrieNode_def isin_newTrieNode[unfolded newTrieNode_def])

lemma getSuggestions_root:
  "getSuggestions t prefix =
     (case searchPrefix (root t) (clean prefix) of
        None \<Rightarrow> []
      | Some node \<Rightarrow> sort (collectSuggestions node (clean prefix) []))"
proof (cases "toLower (trim prefix) = []")
  case True
  then show ?thesis unfolding getSuggestions_def clean_def Let_def by simp
next
  case False
  then show ?thesis unfolding getSuggestions_def clean_def Let_def by simp
qed

lemma set_getSuggestions:
  assumes "distinctKeys (root t)"
  shows "set (getSuggestions t prefix) =
           {clean prefix @ s | s. isin (root t) (clean prefix @ s)}"
proof (cases "searchPrefix (root t) (clean prefix)")
  case None
  then show ?thesis by (simp add: getSuggestions_root isin_append)
next
  case (Some node)
  with assms have "distinctKeys node" by (rule distinctKeys_searchPrefix)
  then have "set (collectSuggestions node (clean prefix) []) =
      {clean prefix @ s | s. isin node s}"
    using collect_set_distinct(1) by blast
  with Some show ?thesis by (simp add: getSuggestions_root isin_append)
qed

lemma distinct_getSuggestions:
  assumes "distinctKeys (root t)"
  shows "distinct (getSuggestions t prefix)"
proof (cases "searchPrefix (root t) (clean prefix)")
  case None
  then show ?thesis by (simp add: getSuggestions_root)
next
  case (Some node)
  with assms have "distinctKeys node" by (rule distinctKeys_searchPrefix)
  then have "distinct (collectSuggestions node (clean prefix) [])"
    using collect_set_distinct(1) by blast
  with Some show ?thesis by (simp add: getSuggestions_root)
qed

lemma sorted_getSuggestions: "sorted (getSuggestions t prefix)"
  by (simp add: getSuggestions_root split: option.splits)

subsection \<open>Trimming\<close>

lemma find_first_not_of_None: "(find_first_not_of str chars = None) = (set str \<subseteq> set chars)"
  by (induction str) auto

lemma find_first_not_of_less: "find_first_not_of str chars = Some i \<Longrightarrow> i < length str"
  by (induction str arbitrary: i) (auto split: if_splits)

lemma find_last_not_of_None: "(find_last_not_of str chars = None) = (set str \<subseteq> set chars)"
  using find_first_not_of_None[of "rev str" chars]
  by (auto simp: find_last_not_of_def split: option.splits)

lemma trim_Nil_iff: "(trim str = []) = (set str \<subseteq> set whitespace)"
proof (cases "find_first_not_of str whitespace")
  case None
  then show ?thesis by (simp add: trim_def find_first_not_of_None[symmetric])
next
  case (Some first)
  then have ns: "\<not> set str \<subseteq> set whitespace"
    using find_first_not_of_None[of str whitespace] by simp
  then obtain last' where l: "find_last_not_of str whitespace = Some last'"
    using find_last_not_of_None[of str whitespace] by (cases "find_last_not_of str whitespace") auto
  from Some have "first < length str" by (rule find_first_not_of_less)
  then have "substr str first (last' - first + 1) \<noteq> []"
    by (simp add: substr_def)
  with Some l ns show ?thesis by (simp add: trim_def)
qed

lemma clean_Nil_iff: "(clean str = []) = (set str \<subseteq> set whitespace)"
  by (simp add: clean_def toLower_def trim_Nil_iff)

lemma insert_word_blank: "clean w = [] \<Longrightarrow> insert_word t w = t"
  by (simp add: insert_word_def clean_def)

subsection \<open>Repeated insertion and the stored words\<close>

lemma isin_run_mono: "isin (root t) s \<Longrightarrow> isin (root (run t ops)) s"
  by (simp add: isin_run)

lemma wordCount_insert_word_stored:
  "isin (root t) (letters w) \<Longrightarrow> wordCount (insert_word t w) = wordCount t"
  by (simp add: wordCount_insert_isin)

lemma wordCount_insert_word_twice:
  "clean w' = clean w \<Longrightarrow> wordCount (insert_word (run (insert_word t w) ops) w') =
     wordCount (run (insert_word t w) ops)"
proof (cases "clean w = []")
  case True
  assume "clean w' = clean w"
  with True show ?thesis by (simp add: insert_word_blank)
next
  case False
  assume eq: "clean w' = clean w"
  from False have "isin (root (insert_word t w)) (letters w)" by (simp add: isin_insert)
  then have "isin (root (run (insert_word t w) ops)) (letters w')"
    using eq by (simp add: isin_run_mono letters_def)
  then show ?thesis by (rule wordCount_insert_word_stored)
qed

lemma run_replicate_Insert:
  "run t (replicate n (Insert w)) = ((\<lambda>s. insert_word s w) ^^ n) t"
  using funpow_swap1[of "\<lambda>s. insert_word s w"]
  by (induction n arbitrary: t) simp_all

lemma wordCount_insert_word_funpow:
  "wordCount (((\<lambda>s. insert_word s w) ^^ Suc n) t) = wordCount (insert_word t w)"
proof (induction n)
  case 0
  show ?case by simp
next
  case (Suc n)
  have eq: "((\<lambda>s. insert_word s w) ^^ Suc n) t = run (insert_word t w) (replicate n (Insert w))"
    using funpow_swap1[of "\<lambda>s. insert_word s w" n t] by (simp add: run_replicate_Insert)
  have "wordCount (((\<lambda>s. insert_word s w) ^^ Suc (Suc n)) t) =
        wordCount (insert_word (((\<lambda>s. insert_word s w) ^^ Suc n) t) w)"
    by simp
  also have "\<dots> = wordCount (((\<lambda>s. insert_word s w) ^^ Suc n) t)"
    unfolding eq by (rule wordCount_insert_word_twice) simp
  finally show ?case using Suc by simp
qed

lemma isin_reachable:
  "isin (root (run newTrie ops)) s = (s \<in> set (storedWords (insertedWords ops)))"
  by (simp add: isin_run newTrie_facts(4))

lemma clean_empty_prefix: "clean [] = []"
  by (simp add: clean_def trim_def toLower_def)

lemma set_getSuggestions_all:
  "set (getSuggestions (run newTrie ops) []) =
     {letters w | w. w \<in> set (insertedWords ops) \<and> clean w \<noteq> []}"
  using set_getSuggestions[OF distinctKeys_run[OF newTrie_facts(1)], of ops "[]"]
  by (simp add: clean_empty_prefix isin_reachable set_storedWords)

subsection \<open>Trees that differ in the order of their maps\<close>

lemma sameNode_props:
  "distinctKeys node \<Longrightarrow> sameNode node node' \<Longrightarrow>
     distinctKeys node' \<and> (\<forall>s. isin node' s = isin node s)"
  "distinctKeysChildren cs \<Longrightarrow> sameChildren cs cs' \<Longrightarrow>
     (\<forall>k c. map_of cs k = Some c \<longrightarrow>
        (\<exists>c'. map_of cs' k = Some c' \<and> distinctKeys c' \<and> (\<forall>s. isin c' s = isin c s)))"
proof (induction node node' and cs cs' rule: sameNode_sameChildren.induct)
  case (1 cs e node')
  define cs' where "cs' = children node'"
  from "1.prems" have dk: "distinctKeysChildren cs" and e: "e = isEndOfWord node'"
    and len: "length cs = length cs'" and sc: "sameChildren cs cs'"
    by (simp_all add: cs'_def)
  have node': "node' = TrieNode cs' e" by (cases node') (simp add: cs'_def e)
  from "1.IH"[OF dk sc[unfolded cs'_def]]
  have Q: "\<And>k c. map_of cs k = Some c \<Longrightarrow>
      \<exists>c'. map_of cs' k = Some c' \<and> distinctKeys c' \<and> (\<forall>s. isin c' s = isin c s)"
    by (simp add: cs'_def)
  from dk have dist: "distinct (map fst cs)" by (simp add: distinctKeysChildren_iff)
  have sub: "fst ` set cs \<subseteq> fst ` set cs'"
  proof
    fix k assume "k \<in> fst ` set cs"
    then obtain c where "map_of cs k = Some c"
      by (metis map_of_eq_None_iff not_Some_eq)
    from Q[OF this] obtain c' where "map_of cs' k = Some c'" by blast
    then show "k \<in> fst ` set cs'" by (metis map_of_eq_None_iff option.distinct(1))
  qed
  have "card (fst ` set cs) = length cs"
    using dist distinct_card[of "map fst cs"] by simp
  moreover have "card (fst ` set cs') \<le> length cs'"
    using card_length[of "map fst cs'"] by simp
  ultimately have "card (fst ` set cs') \<le> card (fst ` set cs)" using len by simp
  with sub have keys: "fst ` set cs = fst ` set cs'"
    by (simp add: card_seteq)
  then have "card (set (map fst cs')) = length (map fst cs')"
    using \<open>card (fst ` set cs) = length cs\<close> len by simp
  then have dist': "distinct (map fst cs')" by (rule card_distinct)
  have "\<forall>x\<in>set cs'. distinctKeys (snd x)"
  proof
    fix x assume x: "x \<in> set cs'"
    then have "fst x \<in> fst ` set cs" using keys by force
    then obtain c where "map_of cs (fst x) = Some c"
      by (metis map_of_eq_None_iff not_Some_eq)
    from Q[OF this] obtain c' where c': "map_of cs' (fst x) = Some c'" "distinctKeys c'" by blast
    from x dist' have "map_of cs' (fst x) = Some (snd x)" by simp
    with c' show "distinctKeys (snd x)" by simp
  qed
  with dist' have d': "distinctKeys node'"
    by (simp add: node' distinctKeysChildren_iff)
  have "isin node' s = isin (TrieNode cs e) s" for s
  proof (cases s)
    case Nil
    then show ?thesis by (simp add: isin_Nil node')
  next
    case (Cons k s')
    show ?thesis
    proof (cases "map_of cs k")
      case None
      then have "k \<notin> fst ` set cs'" using keys by (simp add: map_of_eq_None_iff)
      then have "map_of cs' k = None" by (simp add: map_of_eq_None_iff)
      with None Cons show ?thesis by (simp add: isin_Cons node')
    next
      case (Some c)
      from Q[OF this] obtain c' where "map_of cs' k = Some c'" "\<forall>s. isin c' s = isin c s"
        by blast
      with Some Cons show ?thesis by (simp add: isin_Cons node')
    qed
  qed
  with d' show ?case by blast
next
  case (2 cs')
  show ?case by simp
next
  case (3 key child rest cs')
  from "3.prems" have dk: "key \<notin> fst ` set rest" and dc: "distinctKeys child"
    and dr: "distinctKeysChildren rest" by simp_all
  from "3.prems"(2) obtain child' where c': "map_of cs' key = Some child'" "sameNode child child'"
    and sr: "sameChildren rest cs'"
    by (auto split: option.splits)
  from "3.IH"(1)[OF c'(1) dc c'(2)]
  have P: "distinctKeys child'" "\<forall>s. isin child' s = isin child s" by simp_all
  from "3.IH"(2)[OF dr sr]
  have Q: "\<forall>k c. map_of rest k = Some c \<longrightarrow>
        (\<exists>c'. map_of cs' k = Some c' \<and> distinctKeys c' \<and> (\<forall>s. isin c' s = isin c s))" .
  show ?case
  proof (intro allI impI)
    fix k c assume m: "map_of ((key, child) # rest) k = Some c"
    show "\<exists>c'. map_of cs' k = Some c' \<and> distinctKeys c' \<and> (\<forall>s. isin c' s = isin c s)"
    proof (cases "k = key")
      case True
      with m have "c = child" by simp
      with True c' P show ?thesis by simp
    next
      case False
      with m have "map_of rest k = Some c" by simp
      with Q show ?thesis by blast
    qed
  qed
qed

lemma sameNode_refl:
  "distinctKeys node \<Longrightarrow> sameNode node node"
  "distinctKeysChildren cs \<Longrightarrow> set cs \<subseteq> set cs' \<Longrightarrow> distinct (map fst cs') \<Longrightarrow> sameChildren cs cs'"
proof (induction node and cs arbitrary: and cs' rule: distinctKeys_distinctKeysChildren.induct)
  case (1 cs e)
  then show ?case by (simp add: distinctKeysChildren_iff)
next
  case 2
  show ?case by simp
next
  case (3 key child rest)
  from "3.prems" have m: "map_of cs' key = Some child" by simp
  from "3.prems" have "sameNode child child" "sameChildren rest cs'"
    by (simp_all add: "3.IH")
  then show ?case unfolding sameChildren.simps m by simp
qed

lemma reaches_invariant:
  "reaches t ops t' \<Longrightarrow> distinctKeys (root t) \<Longrightarrow>
     distinctKeys (root t') \<and>
     (\<forall>s. isin (root t') s = (isin (root t) s \<or> s \<in> set (storedWords (insertedWords ops))))"
proof (induction rule: reaches.induct)
  case (reaches_Nil t)
  then show ?case by simp
next
  case (reaches_Cons t x u ops t')
  from reaches_Cons.prems have d: "distinctKeys (root (fst (step t x)))"
    by (cases x) (simp_all add: distinctKeys_insert)
  from reaches_Cons.hyps(1) have s: "sameNode (root (fst (step t x))) (root u)"
    by (simp add: sameTrie_def)
  from sameNode_props(1)[OF d s]
  have u: "distinctKeys (root u)" "\<And>s. isin (root u) s = isin (root (fst (step t x))) s"
    by simp_all
  from reaches_Cons.IH[OF u(1)]
  have t': "distinctKeys (root t')"
    "\<And>s. isin (root t') s = (isin (root u) s \<or> s \<in> set (storedWords (insertedWords ops)))"
    by simp_all
  show ?case
  proof (intro conjI allI)
    show "distinctKeys (root t')" by (rule t'(1))
    fix s
    show "isin (root t') s =
       (isin (root t) s \<or> s \<in> set (storedWords (insertedWords (x # ops))))"
      unfolding t'(2) u(2) by (cases x) (auto simp: isin_insert)
  qed
qed

lemma reaches_run: "distinctKeys (root t) \<Longrightarrow> reaches t ops (run t ops)"
proof (induction t ops rule: run.induct)
  case (1 t)
  show ?case by (simp add: reaches_Nil)
next
  case (2 t x ops)
  have d: "distinctKeys (root (fst (step t x)))"
    using "2.prems" by (cases x) (simp_all add: distinctKeys_insert)
  then have "sameTrie (fst (step t x)) (fst (step t x))"
    by (simp add: sameTrie_def sameNode_refl(1))
  moreover have "reaches (fst (step t x)) ops (run (fst (step t x)) ops)"
    using d by (rule "2.IH")
  ultimately show ?case by (simp add: reaches_Cons)
qed

lemma reaches_getSuggestions_inserts:
  assumes "reaches newTrie ops t" "reaches newTrie ops' t'"
    and "insertedWords ops = insertedWords ops'"
  shows "getSuggestions t P = getSuggestions t' P"
proof -
  note a = reaches_invariant[OF assms(1) newTrie_facts(1)]
  note b = reaches_invariant[OF assms(2) newTrie_facts(1)]
  from a b assms(3) have "\<And>s. isin (root t) s = isin (root t') s" by simp
  then have "set (getSuggestions t P) = set (getSuggestions t' P)"
    using a b by (simp add: set_getSuggestions)
  moreover have "distinct (getSuggestions t P)" "distinct (getSuggestions t' P)"
    using a b by (simp_all add: distinct_getSuggestions)
  ultimately show ?thesis
    using sorted_getSuggestions by (metis sorted_distinct_set_unique)
qed

subsection \<open>The 32-bit counter\<close>

lemma run_append: "run t (xs @ ys) = run (run t xs) ys"
  by (induction t xs rule: run.induct) simp_all

lemma countTerminal_insert_word:
  "countTerminal (root (insert_word t w)) =
     countTerminal (root t) + (if clean w \<noteq> [] \<and> \<not> isin (root t) (letters w) then 1 else 0)"
  by (simp add: root_insert countTerminal_insertLoop snd_insertLoop letters_def)

lemma find_first_not_of_replicate_a:
  "find_first_not_of (replicate (Suc n) (CHR ''a'')) whitespace = Some 0"
  by (simp add: whitespace_def)

lemma trim_replicate_a: "trim (replicate (Suc n) (CHR ''a'')) = replicate (Suc n) (CHR ''a'')"
proof -
  have "find_last_not_of (replicate (Suc n) (CHR ''a'')) whitespace = Some n"
    unfolding find_last_not_of_def rev_replicate find_first_not_of_replicate_a by simp
  then show ?thesis
    unfolding trim_def find_first_not_of_replicate_a by (simp add: substr_def)
qed

lemma clean_replicate_a: "clean (replicate (Suc n) (CHR ''a'')) = replicate (Suc n) (CHR ''a'')"
  unfolding clean_def trim_replicate_a toLower_def
  by (simp add: tolower_def isupper_def)

lemma letters_replicate_a: "letters (replicate (Suc n) (CHR ''a'')) = replicate (Suc n) (CHR ''a'')"
  unfolding letters_def clean_replicate_a
  by (simp add: isalpha_def islower_def)

lemma insertedWords_append: "insertedWords (xs @ ys) = insertedWords xs @ insertedWords ys"
  by (induction xs rule: insertedWords.induct) simp_all

lemma storedWords_append: "storedWords (xs @ ys) = storedWords xs @ storedWords ys"
  by (induction xs) simp_all

lemma storedWords_growingWords:
  "s \<in> set (storedWords (insertedWords (growingWords n))) \<Longrightarrow> length s \<le> n"
proof (induction n)
  case 0
  then show ?case by simp
next
  case (Suc n)
  then show ?case
    by (auto simp: insertedWords_append storedWords_append clean_replicate_a letters_replicate_a
        simp del: replicate.simps split: if_splits)
qed

lemma countTerminal_growingWords:
  "countTerminal (root (run newTrie (growingWords n))) = n"
proof (induction n)
  case 0
  show ?case by (simp add: newTrie_def newTrieNode_def)
next
  case (Suc n)
  have "\<not> isin (root (run newTrie (growingWords n))) (replicate (Suc n) (CHR ''a''))"
    using storedWords_growingWords[of "replicate (Suc n) (CHR ''a'')" n]
    by (auto simp: isin_reachable simp del: replicate.simps)
  then show ?case
    using Suc
    by (simp add: run_append countTerminal_insert_word clean_replicate_a letters_replicate_a
        del: replicate.simps)
qed

lemma getWordCount_reachable:
  "getWordCount (run newTrie ops) = sint (word_of_nat (countTerminal (root (run newTrie ops))) :: 32 word)"
  unfolding getWordCount_def using countTerminal_run[OF newTrie_facts(3)] by simp

lemma sint_of_nat_small:
  assumes "n < 2 ^ 31"
  shows "sint (word_of_nat n :: 32 word) = int n"
proof -
  have "(word_of_nat n :: 32 word) = word_of_int (int n)" by simp
  moreover from assms have "int n < 2 ^ 31" by (metis of_nat_less_iff of_nat_numeral of_nat_power)
  ultimately show ?thesis
    by (simp add: int_word_sint del: of_int_of_nat_eq)
qed

lemma word_of_sint_eq:
  assumes "sint (w :: 32 word) = int n"
  shows "w = word_of_nat n"
proof -
  have "w = word_of_int (sint w)" by simp
  with assms show ?thesis by simp
qed

section \<open>The claims\<close>

text \<open>
  In what follows a reachable state is \<open>run newTrie ops\<close>: the index after any
  sequence \<open>ops\<close> of calls of \<^verbatim>\<open>insert\<close>, \<^verbatim>\<open>getSuggestions\<close> and \<^verbatim>\<open>getWordCount\<close> on a
  freshly constructed \<^verbatim>\<open>Trie\<close>.
\<close>

text \<open>
  C1. The claim: no call of \<^verbatim>\<open>insert\<close> sets the terminal flag of the root; in
  particular a word whose normalised text is not empty but has no letter neither marks
  the root nor changes the count. The code tests \<^verbatim>\<open>cleanWord.empty()\<close> before the loop
  drops the characters that are not letters, so for \<^verbatim>\<open>"123"\<close> the loop ends at the root:
  the root is marked, the count goes from 0 to 1, and the empty string is listed as a
  suggestion. The theorem evaluates the code at that input.
\<close>

theorem C1_digits_mark_root:
  "clean ''123'' = ''123''
   \<and> \<not> isEndOfWord (root newTrie)
   \<and> getWordCount newTrie = 0
   \<and> isEndOfWord (root (insert_word newTrie ''123''))
   \<and> getWordCount (insert_word newTrie ''123'') = 1
   \<and> getSuggestions (insert_word newTrie ''123'') [] = [[]]"
  by code_simp

text \<open>
  C2. The claim: after any sequence of inserts, the suggestions for the empty prefix
  are exactly the trimmed, lowercased forms of the inserted words. It fails for a word
  with a character that is not a letter: \<^verbatim>\<open>insert\<close> skips that character, so "a1" is
  stored as "a".
\<close>

theorem C2_counterexample:
  "set (getSuggestions (run newTrie [Insert ''a1'']) []) \<noteq>
   set (map clean (insertedWords [Insert ''a1'']))"
proof -
  have "getSuggestions (run newTrie [Insert ''a1'']) [] = [''a'']" by code_simp
  moreover have "map clean (insertedWords [Insert ''a1'']) = [''a1'']" by code_simp
  ultimately show ?thesis by simp
qed

text \<open>
  C2, amended. \<^verbatim>\<open>insert\<close> stores nothing for a word whose normalised text is empty, and
  the letters of the normalised text for any other word. After any sequence of calls in
  which every inserted word is blank or has at least one letter, the suggestions for
  the empty prefix are exactly the letters of the normalised text of every inserted
  word that is not blank, each once.
\<close>

theorem C2_all_stored_words:
  assumes "\<forall>w\<in>set (insertedWords ops). clean w = [] \<or> letters w \<noteq> []"
  shows "set (getSuggestions (run newTrie ops) []) =
           {letters w | w. w \<in> set (insertedWords ops) \<and> clean w \<noteq> []}
         \<and> distinct (getSuggestions (run newTrie ops) [])"
  using set_getSuggestions_all distinct_getSuggestions[OF distinctKeys_run[OF newTrie_facts(1)]]
  by blast

theorem C2_all_stored_words_witness:
  "list_all (\<lambda>w. clean w = [] \<or> letters w \<noteq> [])
     (insertedWords [Insert ''  Apple '', Suggest ''a'', Insert ''a1'', Insert '' '', Insert ''apple''])
   \<and> set (getSuggestions (run newTrie [Insert ''  Apple '', Suggest ''a'', Insert ''a1'', Insert '' '', Insert ''apple'']) []) =
       {letters w | w. w \<in> set (insertedWords [Insert ''  Apple '', Suggest ''a'', Insert ''a1'', Insert '' '', Insert ''apple'']) \<and> clean w \<noteq> []}
   \<and> getSuggestions (run newTrie [Insert ''  Apple '', Suggest ''a'', Insert ''a1'', Insert '' '', Insert ''apple'']) [] = [''a'', ''apple'']"
proof -
  have l: "list_all (\<lambda>w. clean w = [] \<or> letters w \<noteq> [])
     (insertedWords [Insert ''  Apple '', Suggest ''a'', Insert ''a1'', Insert '' '', Insert ''apple''])"
    by code_simp
  then have h: "\<forall>w\<in>set (insertedWords [Insert ''  Apple '', Suggest ''a'', Insert ''a1'', Insert '' '', Insert ''apple'']).
       clean w = [] \<or> letters w \<noteq> []"
    by (simp only: list_all_iff)
  have v: "getSuggestions (run newTrie [Insert ''  Apple '', Suggest ''a'', Insert ''a1'', Insert '' '', Insert ''apple'']) [] = [''a'', ''apple'']"
    by code_simp
  from C2_all_stored_words[OF h] l v show ?thesis by blast
qed

text \<open>
  C3. The claim: after inserting \<open>W\<close>, the suggestions for the prefix \<open>W\<close> include the
  trimmed, lowercased form of \<open>W\<close>. It fails for "a1": the word is stored as "a", and
  the lookup of "a1" finds no edge for the digit.
\<close>

theorem C3_counterexample:
  "clean ''a1'' \<notin> set (getSuggestions (run newTrie [Insert ''a1'']) ''a1'')"
  by code_simp

text \<open>
  C3, amended. For every inserted word \<open>W\<close> whose normalised text is not empty and
  consists of letters only, the suggestions for the prefix \<open>W\<close> include the normalised
  text of \<open>W\<close>, in the state after the insert and in every later one.
\<close>

theorem C3_letter_word_suggested:
  assumes "W \<in> set (insertedWords ops)" and "clean W \<noteq> []" and "\<forall>c\<in>set (clean W). isalpha c"
  shows "clean W \<in> set (getSuggestions (run newTrie ops) W)"
proof -
  from assms(3) have "letters W = clean W" by (simp add: letters_def)
  with assms(1,2) have "clean W \<in> set (storedWords (insertedWords ops))"
    unfolding set_storedWords by (metis (mono_tags, lifting) mem_Collect_eq)
  then have "isin (root (run newTrie ops)) (clean W @ [])" by (simp add: isin_reachable)
  then show ?thesis
    unfolding set_getSuggestions[OF distinctKeys_run[OF newTrie_facts(1)]] by blast
qed

theorem C3_letter_word_suggested_witness:
  "'' Apple'' \<in> set (insertedWords [Insert ''app'', Insert '' Apple'', Count, Insert ''b2''])
   \<and> clean '' Apple'' \<noteq> []
   \<and> list_all isalpha (clean '' Apple'')
   \<and> clean '' Apple'' = ''apple''
   \<and> ''apple'' \<in> set (getSuggestions (run newTrie [Insert ''app'', Insert '' Apple'', Count, Insert ''b2'']) '' Apple'')"
proof -
  have h1: "'' Apple'' \<in> set (insertedWords [Insert ''app'', Insert '' Apple'', Count, Insert ''b2''])" by simp
  have v: "clean '' Apple'' = ''apple''" by code_simp
  have h2: "clean '' Apple'' \<noteq> []" by (simp add: v)
  have l: "list_all isalpha (clean '' Apple'')" unfolding v by code_simp
  then have h3: "\<forall>c\<in>set (clean '' Apple''). isalpha c" by (simp only: list_all_iff)
  from C3_letter_word_suggested[OF h1 h2 h3] h1 h2 l v show ?thesis by simp
qed

text \<open>
  C4. From an empty index, after inserting "apple", "app", "apply", "apricot" and
  "banana" the count is 5, the suggestions for "ap" are "app", "apple", "apply",
  "apricot" in this order, those for "b" are "banana" alone, and there is none for "z".
\<close>

theorem C4_five_words:
  "getWordCount (run newTrie [Insert ''apple'', Insert ''app'', Insert ''apply'',
      Insert ''apricot'', Insert ''banana'']) = 5
   \<and> getSuggestions (run newTrie [Insert ''apple'', Insert ''app'', Insert ''apply'',
      Insert ''apricot'', Insert ''banana'']) ''ap'' = [''app'', ''apple'', ''apply'', ''apricot'']
   \<and> getSuggestions (run newTrie [Insert ''apple'', Insert ''app'', Insert ''apply'',
      Insert ''apricot'', Insert ''banana'']) ''b'' = [''banana'']
   \<and> getSuggestions (run newTrie [Insert ''apple'', Insert ''app'', Insert ''apply'',
      Insert ''apricot'', Insert ''banana'']) ''z'' = []"
  by code_simp

text \<open>
  C5. From any state, inserting the same word \<open>N \<ge> 1\<close> times leaves the count at the
  value it has after the first of these inserts; and once a word has been inserted,
  inserting a word with the same normalised text (possibly after other calls) does
  not change the count.
\<close>

theorem C5_repeated_insert:
  "(0 < N \<longrightarrow> getWordCount (((\<lambda>s. insert_word s w) ^^ N) t) = getWordCount (insert_word t w))
   \<and> (clean w' = clean w \<longrightarrow>
        getWordCount (insert_word (run (insert_word t w) ops) w') =
        getWordCount (run (insert_word t w) ops))"
proof (intro conjI impI)
  assume "0 < N"
  then obtain n where "N = Suc n" by (cases N) auto
  then show "getWordCount (((\<lambda>s. insert_word s w) ^^ N) t) = getWordCount (insert_word t w)"
    unfolding getWordCount_def by (simp only: wordCount_insert_word_funpow)
next
  assume "clean w' = clean w"
  then show "getWordCount (insert_word (run (insert_word t w) ops) w') =
        getWordCount (run (insert_word t w) ops)"
    unfolding getWordCount_def by (simp add: wordCount_insert_word_twice)
qed

theorem C5_repeated_insert_witness:
  "(0 < (3::nat) \<and> getWordCount (((\<lambda>s. insert_word s ''cat'') ^^ 3) (insert_word newTrie ''car''))
        = getWordCount (insert_word (insert_word newTrie ''car'') ''cat''))
   \<and> (clean '' CAT'' = clean ''cat'' \<and>
        getWordCount (insert_word (run (insert_word (insert_word newTrie ''car'') ''cat'') [Insert ''dog'', Suggest ''c'']) '' CAT'') =
        getWordCount (run (insert_word (insert_word newTrie ''car'') ''cat'') [Insert ''dog'', Suggest ''c'']))"
proof -
  have h: "clean '' CAT'' = clean ''cat''" by code_simp
  show ?thesis
    using h C5_repeated_insert[of 3 "''cat''" "insert_word newTrie ''car''" "'' CAT''" "[Insert ''dog'', Suggest ''c'']"]
    by simp
qed

text \<open>
  C6. In every reachable state and for every prefix, the list returned by
  \<^verbatim>\<open>getSuggestions\<close> is in non-decreasing lexicographic order of bytes and has no
  element twice.
\<close>

theorem C6_sorted_distinct:
  "sorted (getSuggestions (run newTrie ops) P) \<and> distinct (getSuggestions (run newTrie ops) P)"
  using distinct_getSuggestions[OF distinctKeys_run[OF newTrie_facts(1)]] sorted_getSuggestions
  by blast

text \<open>
  C7. The claim: in every reachable state \<^verbatim>\<open>wordCount\<close> is the number of nodes of the
  tree whose terminal flag is set. The counter is a 32-bit \<^verbatim>\<open>int\<close>: after the \<open>2^31\<close>
  inserts \<^verbatim>\<open>insert("a")\<close>, \<^verbatim>\<open>insert("aa")\<close>, ... of \<open>2^31\<close> different words the tree has
  \<open>2^31\<close> terminal nodes and the counter has wrapped around to \<open>- 2^31\<close>.
\<close>

theorem C7_counterexample:
  "getWordCount (run newTrie (growingWords (2 ^ 31))) \<noteq>
   int (countTerminal (root (run newTrie (growingWords (2 ^ 31)))))"
  unfolding getWordCount_reachable countTerminal_growingWords
  by simp

text \<open>
  C7, amended. In every reachable state whose tree has fewer than \<open>2^31\<close> terminal
  nodes, \<^verbatim>\<open>wordCount\<close> is the number of nodes of the tree whose terminal flag is set;
  and each of the three operations preserves this equality as long as the tree it
  leaves has fewer than \<open>2^31\<close> terminal nodes.
\<close>

theorem C7_count_is_terminal_nodes:
  "(countTerminal (root (run newTrie ops)) < 2 ^ 31 \<longrightarrow>
      getWordCount (run newTrie ops) = int (countTerminal (root (run newTrie ops))))
   \<and> (getWordCount t = int (countTerminal (root t))
        \<and> countTerminal (root (fst (step t x))) < 2 ^ 31 \<longrightarrow>
        getWordCount (fst (step t x)) = int (countTerminal (root (fst (step t x)))))"
proof (intro conjI impI)
  assume "countTerminal (root (run newTrie ops)) < 2 ^ 31"
  then show "getWordCount (run newTrie ops) = int (countTerminal (root (run newTrie ops)))"
    unfolding getWordCount_reachable by (rule sint_of_nat_small)
next
  assume a: "getWordCount t = int (countTerminal (root t))
      \<and> countTerminal (root (fst (step t x))) < 2 ^ 31"
  then have "wordCount t = word_of_nat (countTerminal (root t))"
    unfolding getWordCount_def by (simp add: word_of_sint_eq)
  then have "wordCount (fst (step t x)) = word_of_nat (countTerminal (root (fst (step t x))))"
    by (cases x) (simp_all add: countTerminal_insert)
  with a show "getWordCount (fst (step t x)) = int (countTerminal (root (fst (step t x))))"
    unfolding getWordCount_def by (simp add: sint_of_nat_small)
qed

theorem C7_count_is_terminal_nodes_witness:
  "countTerminal (root (run newTrie [Insert ''cat'', Suggest ''c'', Count, Insert ''123'', Insert ''Cat'', Insert ''car''])) < 2 ^ 31
   \<and> getWordCount (run newTrie [Insert ''cat'', Suggest ''c'', Count, Insert ''123'', Insert ''Cat'', Insert ''car'']) = 3
   \<and> int (countTerminal (root (run newTrie [Insert ''cat'', Suggest ''c'', Count, Insert ''123'', Insert ''Cat'', Insert ''car'']))) = 3
   \<and> getWordCount (insert_word newTrie ''cat'') = int (countTerminal (root (insert_word newTrie ''cat'')))
   \<and> countTerminal (root (fst (step (insert_word newTrie ''cat'') (Insert ''car'')))) < 2 ^ 31
   \<and> getWordCount (fst (step (insert_word newTrie ''cat'') (Insert ''car''))) = 2
   \<and> int (countTerminal (root (fst (step (insert_word newTrie ''cat'') (Insert ''car''))))) = 2"
proof -
  have c1: "countTerminal (root (run newTrie [Insert ''cat'', Suggest ''c'', Count, Insert ''123'', Insert ''Cat'', Insert ''car''])) = 3"
    by code_simp
  have c2: "countTerminal (root (fst (step (insert_word newTrie ''cat'') (Insert ''car'')))) = 2"
    by code_simp
  have b1: "countTerminal (root (run newTrie [Insert ''cat'', Suggest ''c'', Count, Insert ''123'', Insert ''Cat'', Insert ''car''])) < 2 ^ 31"
    unfolding c1 by simp
  have b2: "countTerminal (root (fst (step (insert_word newTrie ''cat'') (Insert ''car'')))) < 2 ^ 31"
    unfolding c2 by simp
  have h: "getWordCount (insert_word newTrie ''cat'') = int (countTerminal (root (insert_word newTrie ''cat'')))"
    by code_simp
  note inst = C7_count_is_terminal_nodes[of "[Insert ''cat'', Suggest ''c'', Count, Insert ''123'', Insert ''Cat'', Insert ''car'']"
        "insert_word newTrie ''cat''" "Insert ''car''"]
  from inst b1 have g1: "getWordCount (run newTrie [Insert ''cat'', Suggest ''c'', Count, Insert ''123'', Insert ''Cat'', Insert ''car'']) =
      int (countTerminal (root (run newTrie [Insert ''cat'', Suggest ''c'', Count, Insert ''123'', Insert ''Cat'', Insert ''car''])))"
    by blast
  from inst h b2 have g2: "getWordCount (fst (step (insert_word newTrie ''cat'') (Insert ''car''))) =
      int (countTerminal (root (fst (step (insert_word newTrie ''cat'') (Insert ''car'')))))"
    by blast
  from b1 b2 h g1 g2 show ?thesis
    unfolding c1 c2 by simp
qed

text \<open>
  C8. In every reachable state, a prefix whose normalised text (trimmed, lowercased)
  has a character that is not a letter gets the empty list: the edges of the tree are
  letters only, and the lookup follows the prefix character by character.
\<close>

theorem C8_nonletter_prefix:
  assumes "\<exists>c\<in>set (clean P). \<not> isalpha c"
  shows "getSuggestions (run newTrie ops) P = []"
proof -
  have "letterKeys (root (run newTrie ops))"
    using newTrie_facts(2) by (rule letterKeys_run)
  then have "searchPrefix (root (run newTrie ops)) (clean P) = None"
    using assms by (rule letterKeys_searchPrefix_None)
  then show ?thesis by (simp add: getSuggestions_root)
qed

theorem C8_nonletter_prefix_witness:
  "(\<exists>c\<in>set (clean ''a1''). \<not> isalpha c)
   \<and> getSuggestions (run newTrie [Insert ''a1'', Insert ''ab'']) ''a1'' = []"
proof -
  have h: "\<exists>c\<in>set (clean ''a1''). \<not> isalpha c" by code_simp
  show ?thesis using h C8_nonletter_prefix[OF h, of "[Insert ''a1'', Insert ''ab'']"] by simp
qed

text \<open>
  C9. The normalised text of a word is empty exactly when the word is empty or made of
  the characters space, tab, newline and carriage return only; inserting such a word
  returns the index unchanged, so the count and every list of suggestions are as
  before. The operation has no error result.
\<close>

theorem C9_blank_insert_noop:
  "(clean w = []) = (set w \<subseteq> set whitespace)
   \<and> (clean w = [] \<longrightarrow>
        insert_word t w = t
        \<and> getWordCount (insert_word t w) = getWordCount t
        \<and> (\<forall>P. getSuggestions (insert_word t w) P = getSuggestions t P))"
  by (simp add: clean_Nil_iff[symmetric] insert_word_blank)

theorem C9_blank_insert_noop_witness:
  "clean [CHR '' '', CHR 0x09, CHR 0x0A, CHR 0x0D] = []
   \<and> insert_word (insert_word newTrie ''cat'') [CHR '' '', CHR 0x09, CHR 0x0A, CHR 0x0D] = insert_word newTrie ''cat''
   \<and> getWordCount (insert_word (insert_word newTrie ''cat'') [CHR '' '', CHR 0x09, CHR 0x0A, CHR 0x0D]) = 1
   \<and> getSuggestions (insert_word (insert_word newTrie ''cat'') [CHR '' '', CHR 0x09, CHR 0x0A, CHR 0x0D]) ''c'' = [''cat'']"
proof -
  have h: "clean [CHR '' '', CHR 0x09, CHR 0x0A, CHR 0x0D] = []" by code_simp
  have v1: "getWordCount (insert_word newTrie ''cat'') = 1" by code_simp
  have v2: "getSuggestions (insert_word newTrie ''cat'') ''c'' = [''cat'']" by code_simp
  show ?thesis
    using h v1 v2 C9_blank_insert_noop[of "[CHR '' '', CHR 0x09, CHR 0x0A, CHR 0x0D]" "insert_word newTrie ''cat''"]
    by simp
qed

text \<open>
  C10. \<^verbatim>\<open>getSuggestions\<close> is deterministic and read-only. Two indexes reached from a new
  one by calls with the same sequence of inserted words, whatever order the maps of
  their nodes hold their entries in, give the same list for the same prefix. A call
  of \<^verbatim>\<open>getSuggestions\<close> returns the index as it was, so a second call with the same
  prefix returns the same list, and the count and the suggestions for any other prefix
  are as before.
\<close>

theorem C10_suggest_deterministic_readonly:
  "(reaches newTrie ops t \<and> reaches newTrie ops' t' \<and> insertedWords ops = insertedWords ops'
      \<longrightarrow> getSuggestions t P = getSuggestions t' P)
   \<and> fst (step s (Suggest P)) = s
   \<and> snd (step (fst (step s (Suggest P))) (Suggest P)) = snd (step s (Suggest P))
   \<and> getWordCount (fst (step s (Suggest P))) = getWordCount s
   \<and> getSuggestions (fst (step s (Suggest P))) Q = getSuggestions s Q"
  using reaches_getSuggestions_inserts[of ops t ops' t' P] by simp

theorem C10_suggest_deterministic_readonly_witness:
  "reaches newTrie [Insert ''ab'', Suggest ''a'', Insert ''ac'']
      (run newTrie [Insert ''ab'', Suggest ''a'', Insert ''ac''])
   \<and> reaches newTrie [Insert ''ab'', Insert ''ac'']
        \<lparr>root = TrieNode [(CHR ''a'', TrieNode [(CHR ''c'', TrieNode [] True),
                                                (CHR ''b'', TrieNode [] True)] False)] False,
         wordCount = 2\<rparr>
   \<and> insertedWords [Insert ''ab'', Suggest ''a'', Insert ''ac''] = insertedWords [Insert ''ab'', Insert ''ac'']
   \<and> collectSuggestions (root (run newTrie [Insert ''ab'', Suggest ''a'', Insert ''ac''])) [] [] = [''ab'', ''ac'']
   \<and> collectSuggestions (TrieNode [(CHR ''a'', TrieNode [(CHR ''c'', TrieNode [] True),
                                                (CHR ''b'', TrieNode [] True)] False)] False) [] [] = [''ac'', ''ab'']
   \<and> getSuggestions (run newTrie [Insert ''ab'', Suggest ''a'', Insert ''ac'']) ''a'' = [''ab'', ''ac'']
   \<and> getSuggestions \<lparr>root = TrieNode [(CHR ''a'', TrieNode [(CHR ''c'', TrieNode [] True),
                                                (CHR ''b'', TrieNode [] True)] False)] False,
         wordCount = 2\<rparr> ''a'' = [''ab'', ''ac'']"
proof -
  define t' where "t' = \<lparr>root = TrieNode [(CHR ''a'', TrieNode [(CHR ''c'', TrieNode [] True),
                                                (CHR ''b'', TrieNode [] True)] False)] False,
         wordCount = 2\<rparr>"
  have r1: "reaches newTrie [Insert ''ab'', Suggest ''a'', Insert ''ac'']
      (run newTrie [Insert ''ab'', Suggest ''a'', Insert ''ac''])"
    using newTrie_facts(1) by (rule reaches_run)
  have s1: "sameTrie (fst (step newTrie (Insert ''ab''))) (insert_word newTrie ''ab'')"
    by code_simp
  have s2: "sameTrie (fst (step (insert_word newTrie ''ab'') (Insert ''ac''))) t'"
    unfolding t'_def by code_simp
  have r2: "reaches newTrie [Insert ''ab'', Insert ''ac''] t'"
    by (rule reaches_Cons[OF s1]) (rule reaches_Cons[OF s2], rule reaches_Nil)
  have i: "insertedWords [Insert ''ab'', Suggest ''a'', Insert ''ac''] = insertedWords [Insert ''ab'', Insert ''ac'']"
    by simp
  have c1: "collectSuggestions (root (run newTrie [Insert ''ab'', Suggest ''a'', Insert ''ac''])) [] [] = [''ab'', ''ac'']"
    by code_simp
  have c2: "collectSuggestions (root t') [] [] = [''ac'', ''ab'']"
    unfolding t'_def by code_simp
  have g: "getSuggestions t' ''a'' = [''ab'', ''ac'']"
    unfolding t'_def by code_simp
  from C10_suggest_deterministic_readonly[of "[Insert ''ab'', Suggest ''a'', Insert ''ac'']"
      "run newTrie [Insert ''ab'', Suggest ''a'', Insert ''ac'']" "[Insert ''ab'', Insert ''ac'']" t' "''a''"]
    r1 r2 i
  have "getSuggestions (run newTrie [Insert ''ab'', Suggest ''a'', Insert ''ac'']) ''a'' = getSuggestions t' ''a''"
    by blast
  with r1 r2 i c1 c2 g show ?thesis unfolding t'_def by simp
qed

end
